theory Spec2Isabelle
  imports Main "HOL-Library.Word"
begin

unbundle bit_operations_syntax

section \<open>The tasklet wait primitive (compat softirq.c)\<close>

text \<open>
  \<^verbatim>\<open>struct tasklet_struct\<close> is declared in \<^verbatim>\<open>linux/interrupt.h\<close>. The wait primitive
  reads its \<^verbatim>\<open>state\<close> word only, so the record names that field and leaves every
  other field (queue link, handler, user data) in the record's extension.
\<close>

record tasklet_struct =
  state :: "64 word"

text \<open>
  \<^verbatim>\<open>test_bit(nr, addr)\<close> on one \<^verbatim>\<open>unsigned long\<close>.
\<close>

definition test_bit :: "nat \<Rightarrow> 64 word \<Rightarrow> bool" where
  "test_bit nr w = bit w nr"

text \<open>
  The three primitives the loop body calls live in the kernel proper. They are taken
  as parameters acting on the state \<open>'c\<close> of the calling processor.
\<close>

record 'c bh_ops =
  local_bh_disable :: "'c \<Rightarrow> 'c"
  local_bh_enable :: "'c \<Rightarrow> 'c"
  cpu_relax :: "'c \<Rightarrow> 'c"

text \<open>
  One pass through the body of the \<^verbatim>\<open>while\<close> loop:
  \<^verbatim>\<open>if (IS_ENABLED(CONFIG_PREEMPT_RT)) { local_bh_disable(); local_bh_enable(); }
    else { cpu_relax(); }\<close>
\<close>

definition spin_body :: "bool \<Rightarrow> 'c bh_ops \<Rightarrow> 'c \<Rightarrow> 'c" where
  "spin_body CONFIG_PREEMPT_RT ops c =
     (if CONFIG_PREEMPT_RT then local_bh_enable ops (local_bh_disable ops c)
      else cpu_relax ops c)"

text \<open>
  What the call returns: how many times the body ran, the unit as last read, and the
  state of the calling processor.
\<close>

record ('a, 'c) wait_result =
  iterations :: nat
  unit_seen :: "'a tasklet_struct_scheme"
  cpu_after :: 'c

text \<open>
  The unit is shared memory: other contexts write it while the waiter spins.
  \<open>others k\<close> is everything they wrote to the unit since the waiter's previous read
  and before its read number \<open>k\<close>. The waiter itself only tests the bit. The loop need
  not end, so not returning is the value \<open>None\<close>.
\<close>

partial_function (option) spin_wait_from ::
  "bool \<Rightarrow> nat \<Rightarrow> 'c bh_ops \<Rightarrow> (nat \<Rightarrow> 'a tasklet_struct_scheme \<Rightarrow> 'a tasklet_struct_scheme) \<Rightarrow>
   nat \<Rightarrow> 'a tasklet_struct_scheme \<Rightarrow> 'c \<Rightarrow> ('a, 'c) wait_result option" where
  "spin_wait_from CONFIG_PREEMPT_RT TASKLET_STATE_RUN ops others k t c =
     (if test_bit TASKLET_STATE_RUN (state (others k t))
      then spin_wait_from CONFIG_PREEMPT_RT TASKLET_STATE_RUN ops others (Suc k) (others k t)
             (spin_body CONFIG_PREEMPT_RT ops c)
      else Some \<lparr>iterations = k, unit_seen = others k t, cpu_after = c\<rparr>)"

definition tasklet_unlock_spin_wait ::
  "bool \<Rightarrow> nat \<Rightarrow> 'c bh_ops \<Rightarrow> (nat \<Rightarrow> 'a tasklet_struct_scheme \<Rightarrow> 'a tasklet_struct_scheme) \<Rightarrow>
   'a tasklet_struct_scheme \<Rightarrow> 'c \<Rightarrow> ('a, 'c) wait_result option" where
  "tasklet_unlock_spin_wait CONFIG_PREEMPT_RT TASKLET_STATE_RUN ops others t c =
     spin_wait_from CONFIG_PREEMPT_RT TASKLET_STATE_RUN ops others 0 t c"

text \<open>The unit as the waiter's read number \<open>k\<close> finds it: the other contexts' writes only.\<close>

primrec unit_at ::
  "(nat \<Rightarrow> 'a tasklet_struct_scheme \<Rightarrow> 'a tasklet_struct_scheme) \<Rightarrow> 'a tasklet_struct_scheme \<Rightarrow>
   nat \<Rightarrow> 'a tasklet_struct_scheme" where
  "unit_at others t 0 = others 0 t"
| "unit_at others t (Suc k) = others (Suc k) (unit_at others t k)"


text \<open>The same from read number \<open>k\<close> on, for a loop that is already under way.\<close>

primrec unit_from ::
  "(nat \<Rightarrow> 'a tasklet_struct_scheme \<Rightarrow> 'a tasklet_struct_scheme) \<Rightarrow> nat \<Rightarrow>
   'a tasklet_struct_scheme \<Rightarrow> nat \<Rightarrow> 'a tasklet_struct_scheme" where
  "unit_from others k t 0 = others k t"
| "unit_from others k t (Suc j) = others (k + Suc j) (unit_from others k t j)"


subsection \<open>Sample runs\<close>

text \<open>
  A processor whose only state is the nesting counter, and one that logs the calls it
  receives.
\<close>

definition counter_ops :: "nat bh_ops" where
  "counter_ops =
     \<lparr>local_bh_disable = Suc, local_bh_enable = (\<lambda>n. n - 1), cpu_relax = (\<lambda>n. n)\<rparr>"

datatype bh_call = LOCAL_BH_DISABLE | LOCAL_BH_ENABLE | CPU_RELAX

definition logging_ops :: "bh_call list bh_ops" where
  "logging_ops =
     \<lparr>local_bh_disable = (\<lambda>l. l @ [LOCAL_BH_DISABLE]),
      local_bh_enable = (\<lambda>l. l @ [LOCAL_BH_ENABLE]),
      cpu_relax = (\<lambda>l. l @ [CPU_RELAX])\<rparr>"

text \<open>
  The handler runs on another processor and clears bit 1 of the state word between the
  waiter's second and third read.
\<close>

definition run_ends_before_read_2 :: "nat \<Rightarrow> tasklet_struct \<Rightarrow> tasklet_struct" where
  "run_ends_before_read_2 k t = (if k = 2 then t\<lparr>state := state t AND NOT 2\<rparr> else t)"

subsection \<open>The loop, read by read\<close>

lemma unit_from_shift:
  "unit_from others (Suc k) (others k t) j = unit_from others k t (Suc j)"
  by (induction j) simp_all

lemma unit_at_unit_from: "unit_at others t k = unit_from others 0 t k"
  by (induction k) simp_all

lemma spin_wait_from_exit:
  "(\<forall>j<m. test_bit nr (state (unit_from others k t j))) \<Longrightarrow>
   \<not> test_bit nr (state (unit_from others k t m)) \<Longrightarrow>
   spin_wait_from rt nr ops others k t c =
     Some \<lparr>iterations = k + m, unit_seen = unit_from others k t m,
           cpu_after = (spin_body rt ops ^^ m) c\<rparr>"
proof (induction m arbitrary: k t c)
  case 0
  then show ?case by (subst spin_wait_from.simps) simp
next
  case (Suc m)
  from Suc.prems(1) have run0: "test_bit nr (state (others k t))" by force
  have rest: "\<forall>j<m. test_bit nr (state (unit_from others (Suc k) (others k t) j))"
    using Suc.prems(1) by (simp add: unit_from_shift del: unit_from.simps(2))
  have stop: "\<not> test_bit nr (state (unit_from others (Suc k) (others k t) m))"
    using Suc.prems(2) by (simp add: unit_from_shift del: unit_from.simps(2))
  show ?case
    by (subst spin_wait_from.simps)
       (simp add: run0 Suc.IH [OF rest stop] unit_from_shift funpow_swap1
          del: unit_from.simps(2))
qed

lemma spin_wait_from_Some:
  assumes "spin_wait_from rt nr ops others k t c = Some r"
  shows "\<exists>m. (\<forall>j<m. test_bit nr (state (unit_from others k t j))) \<and>
       \<not> test_bit nr (state (unit_from others k t m)) \<and>
       r = \<lparr>iterations = k + m, unit_seen = unit_from others k t m,
            cpu_after = (spin_body rt ops ^^ m) c\<rparr>"
  using assms
proof (induction rt nr ops others k t c r
    rule: spin_wait_from.raw_induct [rotated, consumes 1, case_names step])
  case (step f rt nr ops others k t c r)
  show ?case
  proof (cases "test_bit nr (state (others k t))")
    case False
    with step(2) have "r = \<lparr>iterations = k, unit_seen = others k t, cpu_after = c\<rparr>"
      by simp
    with False show ?thesis by (intro exI [of _ 0]) simp
  next
    case True
    with step(2)
    have "f rt nr ops others (Suc k) (others k t) (spin_body rt ops c) = Some r"
      by simp
    from step(1) [OF this] obtain m where
      m: "\<forall>j<m. test_bit nr (state (unit_from others (Suc k) (others k t) j))"
         "\<not> test_bit nr (state (unit_from others (Suc k) (others k t) m))"
         "r = \<lparr>iterations = Suc k + m, unit_seen = unit_from others (Suc k) (others k t) m,
            cpu_after = (spin_body rt ops ^^ m) (spin_body rt ops c)\<rparr>"
      by (elim exE conjE)
    have "\<forall>j<Suc m. test_bit nr (state (unit_from others k t j))"
    proof (intro allI impI)
      fix j assume "j < Suc m"
      then show "test_bit nr (state (unit_from others k t j))"
        using m(1) True by (cases j) (simp_all add: unit_from_shift del: unit_from.simps(2))
    qed
    moreover have "\<not> test_bit nr (state (unit_from others k t (Suc m)))"
      using m(2) by (simp add: unit_from_shift del: unit_from.simps(2))
    moreover have "r = \<lparr>iterations = k + Suc m, unit_seen = unit_from others k t (Suc m),
            cpu_after = (spin_body rt ops ^^ Suc m) c\<rparr>"
      using m(3) by (simp add: unit_from_shift funpow_swap1 del: unit_from.simps(2))
    ultimately show ?thesis by (intro exI [of _ "Suc m"] conjI)
  qed
qed

lemma spin_wait_from_None:
  "spin_wait_from rt nr ops others k t c = None \<longleftrightarrow>
   (\<forall>j. test_bit nr (state (unit_from others k t j)))"
proof
  assume none: "spin_wait_from rt nr ops others k t c = None"
  show "\<forall>j. test_bit nr (state (unit_from others k t j))"
  proof (rule ccontr)
    assume "\<not> (\<forall>j. test_bit nr (state (unit_from others k t j)))"
    then have ex: "\<exists>j. \<not> test_bit nr (state (unit_from others k t j))" by simp
    define m where "m = (LEAST j. \<not> test_bit nr (state (unit_from others k t j)))"
    have stop: "\<not> test_bit nr (state (unit_from others k t m))"
      unfolding m_def using ex by (rule LeastI_ex)
    have run: "\<forall>j<m. test_bit nr (state (unit_from others k t j))"
      unfolding m_def using not_less_Least by blast
    from spin_wait_from_exit [OF run stop, of rt ops c] none show False by simp
  qed
next
  assume all: "\<forall>j. test_bit nr (state (unit_from others k t j))"
  show "spin_wait_from rt nr ops others k t c = None"
  proof (cases "spin_wait_from rt nr ops others k t c")
    case None
    then show ?thesis .
  next
    case (Some r)
    from spin_wait_from_Some [OF this] obtain m where
      "\<not> test_bit nr (state (unit_from others k t m))" by (elim exE conjE)
    with all show ?thesis by simp
  qed
qed

lemma spin_wait_from_eq:
  "spin_wait_from rt nr ops others k t c =
     (if \<forall>j. test_bit nr (state (unit_from others k t j)) then None
      else Some \<lparr>iterations = k + (LEAST j. \<not> test_bit nr (state (unit_from others k t j))),
                 unit_seen = unit_from others k t
                   (LEAST j. \<not> test_bit nr (state (unit_from others k t j))),
                 cpu_after = (spin_body rt ops ^^
                   (LEAST j. \<not> test_bit nr (state (unit_from others k t j)))) c\<rparr>)"
proof (cases "\<forall>j. test_bit nr (state (unit_from others k t j))")
  case True
  then show ?thesis by (simp add: spin_wait_from_None)
next
  case False
  then have ex: "\<exists>j. \<not> test_bit nr (state (unit_from others k t j))" by simp
  define m where "m = (LEAST j. \<not> test_bit nr (state (unit_from others k t j)))"
  have stop: "\<not> test_bit nr (state (unit_from others k t m))"
    unfolding m_def using ex by (rule LeastI_ex)
  have run: "\<forall>j<m. test_bit nr (state (unit_from others k t j))"
    unfolding m_def using not_less_Least by blast
  from spin_wait_from_exit [OF run stop, of rt ops c] False show ?thesis
    by (simp add: m_def)
qed



lemma sample_wait:
  "tasklet_unlock_spin_wait rt 1 ops run_ends_before_read_2 \<lparr>state = 3\<rparr> c =
     Some \<lparr>iterations = 2, unit_seen = \<lparr>state = 1\<rparr>,
           cpu_after = spin_body rt ops (spin_body rt ops c)\<rparr>"
proof -
  have run: "\<forall>j<2. test_bit 1 (state (unit_from run_ends_before_read_2 0 \<lparr>state = 3\<rparr> j))"
    by (auto simp: run_ends_before_read_2_def test_bit_def less_Suc_eq numeral_2_eq_2)
  have stop: "\<not> test_bit 1 (state (unit_from run_ends_before_read_2 0 \<lparr>state = 3\<rparr> 2))"
    by (simp add: run_ends_before_read_2_def test_bit_def eval_nat_numeral)
  have seen: "unit_from run_ends_before_read_2 0 \<lparr>state = 3\<rparr> 2 = \<lparr>state = 1\<rparr>"
    by (simp add: run_ends_before_read_2_def eval_nat_numeral)
  show ?thesis
    unfolding tasklet_unlock_spin_wait_def spin_wait_from_exit [OF run stop] seen
    by (simp add: eval_nat_numeral)
qed

lemma sample_unit_at:
  "unit_at run_ends_before_read_2 \<lparr>state = 3\<rparr> 0 = \<lparr>state = 3\<rparr>"
  "unit_at run_ends_before_read_2 \<lparr>state = 3\<rparr> (Suc 0) = \<lparr>state = 3\<rparr>"
  "unit_at run_ends_before_read_2 \<lparr>state = 3\<rparr> 2 = \<lparr>state = 1\<rparr>"
  by (simp_all add: run_ends_before_read_2_def eval_nat_numeral)

subsection \<open>The claims about the wait primitive\<close>

text \<open>
  C1. \<^verbatim>\<open>tasklet_unlock_spin_wait\<close> never returns while the RUN bit of the unit's state
  word is set. When it returns, the read it returned on found the bit clear, and every
  read before that one found it set; when the bit is set at every read, the call does
  not return at all.
\<close>

theorem tasklet_unlock_spin_wait_returns_only_when_not_running:
  "case tasklet_unlock_spin_wait rt nr ops others t c of
     None \<Rightarrow> \<forall>j. test_bit nr (state (unit_at others t j))
   | Some r \<Rightarrow>
       \<not> test_bit nr (state (unit_seen r)) \<and>
       unit_seen r = unit_at others t (iterations r) \<and>
       (\<forall>j<iterations r. test_bit nr (state (unit_at others t j)))"
proof (cases "spin_wait_from rt nr ops others 0 t c")
  case None
  then have "\<forall>j. test_bit nr (state (unit_from others 0 t j))"
    by (rule iffD1 [OF spin_wait_from_None])
  with None show ?thesis
    by (simp add: tasklet_unlock_spin_wait_def unit_at_unit_from)
next
  case (Some r)
  from spin_wait_from_Some [OF Some] obtain m where
    m: "\<forall>j<m. test_bit nr (state (unit_from others 0 t j))"
       "\<not> test_bit nr (state (unit_from others 0 t m))"
       "r = \<lparr>iterations = 0 + m, unit_seen = unit_from others 0 t m,
            cpu_after = (spin_body rt ops ^^ m) c\<rparr>"
    by (elim exE conjE)
  from m(3) have r: "iterations r = m" "unit_seen r = unit_from others 0 t m" by simp_all
  show ?thesis
    using m(1) m(2) by (simp add: tasklet_unlock_spin_wait_def Some r unit_at_unit_from)
qed

theorem tasklet_unlock_spin_wait_returns_only_when_not_running_witness:
  "tasklet_unlock_spin_wait True 1 counter_ops run_ends_before_read_2 \<lparr>state = 3\<rparr> 0
     = Some \<lparr>iterations = 2, unit_seen = \<lparr>state = 1\<rparr>, cpu_after = 0\<rparr> \<and>
   \<not> test_bit 1 (state (unit_at run_ends_before_read_2 \<lparr>state = 3\<rparr> 2)) \<and>
   test_bit 1 (state (unit_at run_ends_before_read_2 \<lparr>state = 3\<rparr> 0)) \<and>
   test_bit 1 (state (unit_at run_ends_before_read_2 \<lparr>state = 3\<rparr> 1))"
  using tasklet_unlock_spin_wait_returns_only_when_not_running
          [where rt = True and nr = 1 and ops = counter_ops
             and others = run_ends_before_read_2 and t = "\<lparr>state = 3\<rparr>" and c = 0]
  unfolding sample_wait
  by (simp add: sample_unit_at run_ends_before_read_2_def test_bit_def spin_body_def
        counter_ops_def)

text \<open>
  C2. The yield of one iteration is chosen by \<^verbatim>\<open>CONFIG_PREEMPT_RT\<close>: with the flag
  every iteration is one \<^verbatim>\<open>local_bh_disable()\<close> followed at once by one
  \<^verbatim>\<open>local_bh_enable()\<close>, without it every iteration is one \<^verbatim>\<open>cpu_relax()\<close>. Whether
  and when the loop is left, and the unit it is left on, do not depend on the flag.
\<close>

theorem spin_wait_yield_strategy:
  "(\<forall>r. tasklet_unlock_spin_wait rt nr ops others t c = Some r \<longrightarrow>
      cpu_after r =
        ((if rt then local_bh_enable ops \<circ> local_bh_disable ops else cpu_relax ops)
           ^^ iterations r) c) \<and>
   map_option (\<lambda>r. (iterations r, unit_seen r))
     (tasklet_unlock_spin_wait True nr ops others t c) =
   map_option (\<lambda>r. (iterations r, unit_seen r))
     (tasklet_unlock_spin_wait False nr ops others t c)"
proof -
  have body: "spin_body rt ops =
      (if rt then local_bh_enable ops \<circ> local_bh_disable ops else cpu_relax ops)"
    by (rule ext) (simp add: spin_body_def)
  show ?thesis
    unfolding tasklet_unlock_spin_wait_def spin_wait_from_eq body by simp
qed

theorem spin_wait_yield_strategy_witness:
  "tasklet_unlock_spin_wait True 1 logging_ops run_ends_before_read_2 \<lparr>state = 3\<rparr> [] =
     Some \<lparr>iterations = 2, unit_seen = \<lparr>state = 1\<rparr>,
           cpu_after = [LOCAL_BH_DISABLE, LOCAL_BH_ENABLE, LOCAL_BH_DISABLE, LOCAL_BH_ENABLE]\<rparr> \<and>
   tasklet_unlock_spin_wait False 1 logging_ops run_ends_before_read_2 \<lparr>state = 3\<rparr> [] =
     Some \<lparr>iterations = 2, unit_seen = \<lparr>state = 1\<rparr>, cpu_after = [CPU_RELAX, CPU_RELAX]\<rparr>"
proof -
  have ret: "\<And>rt. \<exists>c. tasklet_unlock_spin_wait rt 1 logging_ops run_ends_before_read_2
       \<lparr>state = 3\<rparr> [] = Some \<lparr>iterations = 2, unit_seen = \<lparr>state = 1\<rparr>, cpu_after = c\<rparr>"
    unfolding sample_wait by simp
  from ret [of True] ret [of False]
    spin_wait_yield_strategy [where rt = True and nr = 1 and ops = logging_ops
        and others = run_ends_before_read_2 and t = "\<lparr>state = 3\<rparr>" and c = "[]"]
    spin_wait_yield_strategy [where rt = False and nr = 1 and ops = logging_ops
        and others = run_ends_before_read_2 and t = "\<lparr>state = 3\<rparr>" and c = "[]"]
  show ?thesis
    by (auto simp: logging_ops_def eval_nat_numeral)
qed


section \<open>The hardware monitoring front-end (i915 hwmon)\<close>

type_synonym u32 = "32 word"
type_synonym u64 = "64 word"

text \<open>A register is its MMIO offset; \<^verbatim>\<open>long\<close> is a 64-bit word read as signed.\<close>

type_synonym i915_reg_t = "32 word"
type_synonym long = "64 word"

definition SF_TIME :: u32 where "SF_TIME = 1000"
definition SF_POWER :: u32 where "SF_POWER = 1000000"
definition SF_CURR :: u32 where "SF_CURR = 1000"
definition SF_ENERGY :: u32 where "SF_ENERGY = 1000000"

definition UINT_MAX :: u32 where "UINT_MAX = 0xFFFFFFFF"

record hwm_reg =
  gt_perf_status :: i915_reg_t
  pkg_power_sku_unit :: i915_reg_t
  pkg_power_sku :: i915_reg_t
  pkg_rapl_limit :: i915_reg_t
  energy_status_all :: i915_reg_t
  energy_status_tile :: i915_reg_t

record hwm_energy_info =
  reg_val_prev :: u32
  accum_energy :: long

text \<open>
  Of \<^verbatim>\<open>struct hwm_drvdata\<close> the fields the functions below use. The \<^verbatim>\<open>hwmon\<close>
  back pointer is passed along as an argument of its own.
\<close>

record hwm_drvdata =
  ei :: hwm_energy_info
  gt_n :: int

text \<open>The three shifts are read from a register field at probe time and are not negative.\<close>

record i915_hwmon =
  rg :: hwm_reg
  scl_shift_power :: nat
  scl_shift_energy :: nat
  scl_shift_time :: nat

text \<open>
  Errors are the negative return values of the C functions. What the code does to the
  lock, the runtime power management reference and the hardware is recorded as the
  list of calls it makes, in order.
\<close>

datatype errno = EOPNOTSUPP | EINVAL | ENODEV | ERANGE

datatype hw_call =
    MUTEX_LOCK
  | MUTEX_UNLOCK
  | RUNTIME_PM_GET
  | RUNTIME_PM_PUT
  | UNCORE_READ i915_reg_t
  | UNCORE_READ64 i915_reg_t
  | UNCORE_RMW i915_reg_t u32 u32
  | PCODE_WRITE_I1 u32

text \<open>
  \<^verbatim>\<open>with_intel_runtime_pm(rpm, wf) stmt\<close>: take a wakeref, run the statement once,
  put the wakeref back.
\<close>

definition with_intel_runtime_pm :: "hw_call list \<Rightarrow> hw_call list" where
  "with_intel_runtime_pm stmt = [RUNTIME_PM_GET] @ stmt @ [RUNTIME_PM_PUT]"

definition hwm_locked_with_pm_intel_uncore_rmw :: "i915_reg_t \<Rightarrow> u32 \<Rightarrow> u32 \<Rightarrow> hw_call list" where
  "hwm_locked_with_pm_intel_uncore_rmw reg clear set_bits =
     [MUTEX_LOCK] @ with_intel_runtime_pm [UNCORE_RMW reg clear set_bits] @ [MUTEX_UNLOCK]"

text \<open>
  \<^verbatim>\<open>mul_u64_u32_shr(a, mul, shift)\<close>: the product in 128 bits, shifted right, cut to
  64 bits. \<^verbatim>\<open>DIV_ROUND_CLOSEST_ULL(x, divisor)\<close>: \<^verbatim>\<open>(x + divisor / 2) / divisor\<close> in
  64 bits.
\<close>

definition mul_u64_u32_shr :: "u64 \<Rightarrow> u32 \<Rightarrow> nat \<Rightarrow> u64" where
  "mul_u64_u32_shr a mul shift = word_of_nat ((unat a * unat mul) div 2 ^ shift)"

definition DIV_ROUND_CLOSEST_ULL :: "u64 \<Rightarrow> u32 \<Rightarrow> u64" where
  "DIV_ROUND_CLOSEST_ULL x divisor = (x + ucast (divisor div 2)) div ucast divisor"

text \<open>Bit field helpers: the shift of a mask is the index of its lowest set bit.\<close>

definition FIELD_SHIFT :: "'a::len word \<Rightarrow> nat" where
  "FIELD_SHIFT msk = length (takeWhile (\<lambda>i. \<not> bit msk i) [0..<LENGTH('a)])"

definition REG_FIELD_GET :: "'a::len word \<Rightarrow> 'a word \<Rightarrow> 'a word" where
  "REG_FIELD_GET msk val = drop_bit (FIELD_SHIFT msk) (val AND msk)"

definition REG_FIELD_PREP :: "'a::len word \<Rightarrow> 'a word \<Rightarrow> 'a word" where
  "REG_FIELD_PREP msk val = push_bit (FIELD_SHIFT msk) val AND msk"

text \<open>\<^verbatim>\<open>ilog2\<close> of a 64-bit value: the index of its highest set bit.\<close>

definition fls64 :: "u64 \<Rightarrow> nat" where
  "fls64 w = length (dropWhile (\<lambda>i. \<not> bit w i) (rev [0..<64]))"

definition ilog2 :: "u64 \<Rightarrow> nat" where
  "ilog2 w = fls64 w - 1"

subsection \<open>Writing a scaled field\<close>

definition hwm_field_scale_and_write ::
  "i915_reg_t \<Rightarrow> u32 \<Rightarrow> nat \<Rightarrow> nat \<Rightarrow> u32 \<Rightarrow> long \<Rightarrow> hw_call list" where
  "hwm_field_scale_and_write rgadr field_msk field_shift nshift scale_factor lval =
     (let nval = (ucast (DIV_ROUND_CLOSEST_ULL (push_bit nshift lval) scale_factor) :: u32);
          bits_to_clear = field_msk;
          bits_to_set = push_bit field_shift nval AND field_msk
      in hwm_locked_with_pm_intel_uncore_rmw rgadr bits_to_clear bits_to_set)"

subsection \<open>The energy counter\<close>

record energy_result =
  ret :: "errno + unit"
  ddat_after :: hwm_drvdata
  energy_after :: long
  calls :: "hw_call list"

text \<open>
  \<^verbatim>\<open>hwm_energy(ddat, energy)\<close>. \<open>i915_mmio_reg_valid\<close> and \<open>intel_uncore_read\<close> are
  the driver's register helpers, taken as parameters; \<open>energy\<close> is what the caller's
  variable holds before the call.
\<close>

definition hwm_energy ::
  "(i915_reg_t \<Rightarrow> bool) \<Rightarrow> (i915_reg_t \<Rightarrow> u32) \<Rightarrow> i915_hwmon \<Rightarrow> hwm_drvdata \<Rightarrow> long \<Rightarrow>
   energy_result" where
  "hwm_energy i915_mmio_reg_valid intel_uncore_read hwmon ddat energy =
     (let rgaddr = (if 0 \<le> gt_n ddat then energy_status_tile (rg hwmon)
                    else energy_status_all (rg hwmon))
      in if \<not> i915_mmio_reg_valid rgaddr
         then \<lparr>ret = Inl EOPNOTSUPP, ddat_after = ddat, energy_after = energy, calls = []\<rparr>
         else
           let reg_val = intel_uncore_read rgaddr;
               accum =
                 (if reg_val_prev (ei ddat) \<le> reg_val
                  then accum_energy (ei ddat) + ucast (reg_val - reg_val_prev (ei ddat))
                  else accum_energy (ei ddat) +
                         ucast (UINT_MAX - reg_val_prev (ei ddat) + reg_val))
           in \<lparr>ret = Inr (),
               ddat_after = ddat\<lparr>ei := \<lparr>reg_val_prev = reg_val, accum_energy = accum\<rparr>\<rparr>,
               energy_after = mul_u64_u32_shr accum SF_ENERGY (scl_shift_energy hwmon),
               calls = [MUTEX_LOCK] @ with_intel_runtime_pm [UNCORE_READ rgaddr] @
                         [MUTEX_UNLOCK]\<rparr>)"


subsection \<open>The sysfs write paths\<close>

text \<open>
  The attribute passed to \<^verbatim>\<open>hwm_power_write\<close>; every value other than the two the
  \<^verbatim>\<open>switch\<close> names takes the \<^verbatim>\<open>default\<close> branch.
\<close>

datatype hwmon_power_attr = hwmon_power_max | hwmon_power_crit | hwmon_power_other

text \<open>
  The field masks of the package power registers come from the register headers and
  are taken as parameters.
\<close>

record mchbar_regs =
  PKG_PWR_LIM_1 :: u32
  PKG_PWR_LIM_1_TIME :: u32
  PKG_PWR_LIM_1_TIME_X :: u32
  PKG_PWR_LIM_1_TIME_Y :: u32
  PKG_MAX_WIN :: u64
  PKG_MAX_WIN_X :: u64
  PKG_MAX_WIN_Y :: u64
  POWER_SETUP_I1_SHIFT :: nat

text \<open>
  \<^verbatim>\<open>hwm_power_write(ddat, attr, chan, val)\<close>. The pcode mailbox write of the
  \<^verbatim>\<open>power1_crit\<close> branch is a call whose result is a parameter.
\<close>

definition hwm_power_write ::
  "mchbar_regs \<Rightarrow> (u32 \<Rightarrow> errno + unit) \<Rightarrow> i915_hwmon \<Rightarrow> hwmon_power_attr \<Rightarrow> long \<Rightarrow>
   (errno + unit) \<times> hw_call list" where
  "hwm_power_write M hwm_pcode_write_i1 hwmon attr val =
     (case attr of
        hwmon_power_max \<Rightarrow>
          (Inr (),
           hwm_field_scale_and_write (pkg_rapl_limit (rg hwmon)) (PKG_PWR_LIM_1 M)
             (FIELD_SHIFT (PKG_PWR_LIM_1 M)) (scl_shift_power hwmon) SF_POWER val)
      | hwmon_power_crit \<Rightarrow>
          (let uval = (ucast (DIV_ROUND_CLOSEST_ULL (push_bit (POWER_SETUP_I1_SHIFT M) val)
                         SF_POWER) :: u32)
           in (hwm_pcode_write_i1 uval, [PCODE_WRITE_I1 uval]))
      | hwmon_power_other \<Rightarrow> (Inl EOPNOTSUPP, []))"

definition PKG_MAX_WIN_DEFAULT :: u64 where "PKG_MAX_WIN_DEFAULT = 0x12"

text \<open>
  \<^verbatim>\<open>hwm_power1_max_interval_store(dev, attr, buf, count)\<close>. \<open>kstrtoul\<close> is the
  kernel's parser, a parameter. The value read from \<^verbatim>\<open>pkg_power_sku\<close> is overwritten
  by the default window before it is used, in both branches.
\<close>

definition hwm_power1_max_interval_store ::
  "mchbar_regs \<Rightarrow> (i915_reg_t \<Rightarrow> bool) \<Rightarrow> (string \<Rightarrow> errno + long) \<Rightarrow> i915_hwmon \<Rightarrow>
   string \<Rightarrow> nat \<Rightarrow> (errno + nat) \<times> hw_call list" where
  "hwm_power1_max_interval_store M i915_mmio_reg_valid kstrtoul hwmon buf count =
     (case kstrtoul buf of
        Inl e \<Rightarrow> (Inl e, [])
      | Inr val \<Rightarrow>
          let x_w = 2;
              sku_read =
                (if i915_mmio_reg_valid (pkg_power_sku (rg hwmon))
                 then with_intel_runtime_pm [UNCORE_READ64 (pkg_power_sku (rg hwmon))]
                 else []);
              r = REG_FIELD_PREP (PKG_MAX_WIN M) PKG_MAX_WIN_DEFAULT;
              x = (ucast (REG_FIELD_GET (PKG_MAX_WIN_X M) r) :: u32);
              y = (ucast (REG_FIELD_GET (PKG_MAX_WIN_Y M) r) :: u32);
              tau4 = (ucast (push_bit (unat y) (push_bit x_w 1 OR x)) :: u64);
              max_win = mul_u64_u32_shr tau4 SF_TIME (scl_shift_time hwmon + x_w)
          in if max_win <s val then (Inl EINVAL, sku_read)
             else
               let val = DIV_ROUND_CLOSEST_ULL (push_bit (scl_shift_time hwmon) val) SF_TIME
               in if val = 0 then (Inl EINVAL, sku_read)
                  else
                    let y = ilog2 val;
                        x = (ucast (drop_bit y (push_bit x_w (val - push_bit y 1))) :: u32);
                        rxy = REG_FIELD_PREP (PKG_PWR_LIM_1_TIME_X M) x OR
                              REG_FIELD_PREP (PKG_PWR_LIM_1_TIME_Y M) (of_nat y)
                    in (Inr count,
                        sku_read @
                        hwm_locked_with_pm_intel_uncore_rmw (pkg_rapl_limit (rg hwmon))
                          (PKG_PWR_LIM_1_TIME M) rxy))"

text \<open>
  The discipline of a list of calls, checked from left to right with the lock and the
  number of wakerefs held: a read-modify-write needs the lock and a wakeref, a read
  needs a wakeref, the lock is never taken twice, and at the end nothing is held.
\<close>

fun access_guarded :: "bool \<Rightarrow> nat \<Rightarrow> hw_call list \<Rightarrow> bool" where
  "access_guarded locked refs [] = (\<not> locked \<and> refs = 0)"
| "access_guarded locked refs (MUTEX_LOCK # cs) = (\<not> locked \<and> access_guarded True refs cs)"
| "access_guarded locked refs (MUTEX_UNLOCK # cs) = (locked \<and> access_guarded False refs cs)"
| "access_guarded locked refs (RUNTIME_PM_GET # cs) = access_guarded locked (Suc refs) cs"
| "access_guarded locked refs (RUNTIME_PM_PUT # cs) =
     (0 < refs \<and> access_guarded locked (refs - 1) cs)"
| "access_guarded locked refs (UNCORE_RMW reg clear set_bits # cs) =
     (locked \<and> 0 < refs \<and> access_guarded locked refs cs)"
| "access_guarded locked refs (UNCORE_READ reg # cs) =
     (0 < refs \<and> access_guarded locked refs cs)"
| "access_guarded locked refs (UNCORE_READ64 reg # cs) =
     (0 < refs \<and> access_guarded locked refs cs)"
| "access_guarded locked refs (PCODE_WRITE_I1 uval # cs) = access_guarded locked refs cs"

subsection \<open>A sample device\<close>

definition sample_regs :: mchbar_regs where
  "sample_regs = \<lparr>PKG_PWR_LIM_1 = 0x7FFF, PKG_PWR_LIM_1_TIME = 0xFE0000,
     PKG_PWR_LIM_1_TIME_X = 0xC00000, PKG_PWR_LIM_1_TIME_Y = 0x3E0000,
     PKG_MAX_WIN = 0x7F000000000000, PKG_MAX_WIN_X = 0x60000000000000,
     PKG_MAX_WIN_Y = 0x1F000000000000, POWER_SETUP_I1_SHIFT = 6\<rparr>"

definition sample_hwmon :: i915_hwmon where
  "sample_hwmon = \<lparr>rg = \<lparr>gt_perf_status = 0, pkg_power_sku_unit = 0x5938, pkg_power_sku = 0x5930,
      pkg_rapl_limit = 0x59A0, energy_status_all = 0x593C, energy_status_tile = 0\<rparr>,
      scl_shift_power = 3, scl_shift_energy = 14, scl_shift_time = 10\<rparr>"


subsection \<open>The claims about the monitoring front-end\<close>

lemma access_guarded_append_get_put [simp]:
  "access_guarded locked refs (with_intel_runtime_pm [UNCORE_READ64 reg] @ cs) =
     access_guarded locked refs cs"
  by (simp add: with_intel_runtime_pm_def)

lemma access_guarded_locked_rmw [simp]:
  "access_guarded False 0 (hwm_locked_with_pm_intel_uncore_rmw reg clear set_bits)"
  by (simp add: hwm_locked_with_pm_intel_uncore_rmw_def with_intel_runtime_pm_def)

lemma access_guarded_field_write:
  "access_guarded False 0
     (hwm_field_scale_and_write rgadr field_msk field_shift nshift scale_factor lval)"
  by (simp add: hwm_field_scale_and_write_def Let_def)

lemma access_guarded_power_write:
  "access_guarded False 0 (snd (hwm_power_write M hwm_pcode_write_i1 hwmon attr val))"
  by (cases attr) (simp_all add: hwm_power_write_def access_guarded_field_write Let_def)

lemma access_guarded_interval_store:
  "access_guarded False 0
     (snd (hwm_power1_max_interval_store M i915_mmio_reg_valid kstrtoul hwmon buf count))"
  by (simp add: hwm_power1_max_interval_store_def Let_def with_intel_runtime_pm_def
      hwm_locked_with_pm_intel_uncore_rmw_def split: sum.split)

text \<open>
  C7. The register writes of the write paths (the \<^verbatim>\<open>power1_max\<close> write through
  \<^verbatim>\<open>hwm_field_scale_and_write\<close>, and the \<^verbatim>\<open>power1_max_interval\<close> store) are one call
  of \<^verbatim>\<open>hwm_locked_with_pm_intel_uncore_rmw\<close>, which takes the hwmon mutex, then a
  wakeref, does the read-modify-write, puts the wakeref and releases the mutex. No
  read-modify-write of these paths happens outside that bracket.
\<close>

theorem hwmon_rmw_under_lock_and_wakeref:
  "hwm_locked_with_pm_intel_uncore_rmw reg clear set_bits =
     [MUTEX_LOCK, RUNTIME_PM_GET, UNCORE_RMW reg clear set_bits, RUNTIME_PM_PUT, MUTEX_UNLOCK] \<and>
   hwm_field_scale_and_write rgadr field_msk field_shift nshift scale_factor lval =
     hwm_locked_with_pm_intel_uncore_rmw rgadr field_msk
       (push_bit field_shift
          (ucast (DIV_ROUND_CLOSEST_ULL (push_bit nshift lval) scale_factor)) AND field_msk) \<and>
   access_guarded False 0 (snd (hwm_power_write M hwm_pcode_write_i1 hwmon attr val)) \<and>
   access_guarded False 0
     (snd (hwm_power1_max_interval_store M i915_mmio_reg_valid kstrtoul hwmon buf count))"
proof (intro conjI)
  show "hwm_locked_with_pm_intel_uncore_rmw reg clear set_bits =
     [MUTEX_LOCK, RUNTIME_PM_GET, UNCORE_RMW reg clear set_bits, RUNTIME_PM_PUT, MUTEX_UNLOCK]"
    by (simp add: hwm_locked_with_pm_intel_uncore_rmw_def with_intel_runtime_pm_def)
  show "hwm_field_scale_and_write rgadr field_msk field_shift nshift scale_factor lval =
     hwm_locked_with_pm_intel_uncore_rmw rgadr field_msk
       (push_bit field_shift
          (ucast (DIV_ROUND_CLOSEST_ULL (push_bit nshift lval) scale_factor)) AND field_msk)"
    by (simp add: hwm_field_scale_and_write_def Let_def)
  show "access_guarded False 0 (snd (hwm_power_write M hwm_pcode_write_i1 hwmon attr val))"
    by (rule access_guarded_power_write)
  show "access_guarded False 0
     (snd (hwm_power1_max_interval_store M i915_mmio_reg_valid kstrtoul hwmon buf count))"
    by (rule access_guarded_interval_store)
qed

lemma sample_store:
  "hwm_power1_max_interval_store sample_regs (\<lambda>r. r \<noteq> 0) (\<lambda>_. Inr 1000) sample_hwmon ''1000'' 5
   = (Inr 5, [RUNTIME_PM_GET, UNCORE_READ64 0x5930, RUNTIME_PM_PUT,
        MUTEX_LOCK, RUNTIME_PM_GET, UNCORE_RMW 0x59A0 0xFE0000 0x140000, RUNTIME_PM_PUT, MUTEX_UNLOCK])"
  by (simp add: hwm_power1_max_interval_store_def sample_regs_def sample_hwmon_def Let_def
      REG_FIELD_PREP_def REG_FIELD_GET_def FIELD_SHIFT_def PKG_MAX_WIN_DEFAULT_def
      mul_u64_u32_shr_def SF_TIME_def DIV_ROUND_CLOSEST_ULL_def ilog2_def fls64_def
      with_intel_runtime_pm_def hwm_locked_with_pm_intel_uncore_rmw_def word_sless_alt
      upt_rec [of _ "numeral _"])

text \<open>
  C9. \<^verbatim>\<open>hwm_energy\<close> reads the per-tile register when \<^verbatim>\<open>gt_n >= 0\<close> and the package
  register otherwise. When that register is not valid it returns \<^verbatim>\<open>-EOPNOTSUPP\<close>
  with no call made (no lock, no read) and leaves the accumulator and the caller's
  variable as they were; otherwise it returns 0 after one read under the lock.
\<close>

theorem hwm_energy_register_choice_and_unsupported:
  "(let rgaddr = (if 0 \<le> gt_n ddat then energy_status_tile (rg hwmon)
                  else energy_status_all (rg hwmon));
        r = hwm_energy i915_mmio_reg_valid intel_uncore_read hwmon ddat energy
    in if i915_mmio_reg_valid rgaddr
       then ret r = Inr () \<and>
            calls r = [MUTEX_LOCK, RUNTIME_PM_GET, UNCORE_READ rgaddr, RUNTIME_PM_PUT,
                       MUTEX_UNLOCK]
       else ret r = Inl EOPNOTSUPP \<and> calls r = [] \<and> ddat_after r = ddat \<and>
            energy_after r = energy)"
  by (simp add: hwm_energy_def Let_def with_intel_runtime_pm_def)

text \<open>
  C8. On a wrap of the 32-bit counter the accumulator is to grow by
  \<open>new + 2^32 - previous\<close>. The code adds \<^verbatim>\<open>UINT_MAX - previous + new\<close>, one less:
  from a previous reading of \<^verbatim>\<open>0xFFFFFFFF\<close> to a reading of 0 the counter advanced
  by one and the accumulator stays at 7.
\<close>

theorem hwm_energy_wraparound_drops_one_count:
  "hwm_energy (\<lambda>r. r \<noteq> 0) (\<lambda>_. 0) sample_hwmon
      \<lparr>ei = \<lparr>reg_val_prev = 0xFFFFFFFF, accum_energy = 7\<rparr>, gt_n = -1\<rparr> 0 =
     \<lparr>ret = Inr (),
      ddat_after = \<lparr>ei = \<lparr>reg_val_prev = 0, accum_energy = 7\<rparr>, gt_n = -1\<rparr>,
      energy_after = 427,
      calls = [MUTEX_LOCK, RUNTIME_PM_GET, UNCORE_READ 0x593C, RUNTIME_PM_PUT, MUTEX_UNLOCK]\<rparr>"
  by (simp add: hwm_energy_def sample_hwmon_def Let_def UINT_MAX_def with_intel_runtime_pm_def
      mul_u64_u32_shr_def SF_ENERGY_def)

text \<open>The same for every wrap: what is added is one short of the wrap-around delta.\<close>

lemma hwm_energy_wrap_delta:
  fixes prev new :: u32
  assumes "new < prev"
  shows "unat (UINT_MAX - prev + new) + 1 = unat new + 2 ^ 32 - unat prev"
proof -
  have p: "unat prev < 2 ^ 32" using unsigned_less [of prev] by simp
  have n: "unat new < unat prev" using assms by (simp add: word_less_nat_alt)
  have "unat (UINT_MAX - prev) = 2 ^ 32 - 1 - unat prev"
    using p by (simp add: UINT_MAX_def unat_sub word_le_nat_alt)
  moreover have "unat (UINT_MAX - prev + new) = unat (UINT_MAX - prev) + unat new"
    using p n calculation by (simp add: unat_add_lem [THEN iffD1])
  ultimately show ?thesis using p n by simp
qed


section \<open>Scaler assignment at atomic check (intel_atomic.c)\<close>

text \<open>
  The structures are declared in the display headers; the records carry the fields the
  two functions read or write. \<^verbatim>\<open>scalers[]\<close> is indexed by scaler number.
\<close>

record intel_scaler =
  in_use :: bool
  mode :: u32

record intel_crtc_scaler_state =
  scalers :: "nat \<Rightarrow> intel_scaler"
  scaler_users :: u32
  scaler_id :: int

record intel_crtc =
  num_scalers :: int
  pipe :: nat

text \<open>
  A plane's \<^verbatim>\<open>pipe\<close> and \<^verbatim>\<open>id\<close>, and a plane state's \<^verbatim>\<open>scaler_id\<close>, are named
  \<open>plane_pipe\<close>, \<open>plane_id\<close> and \<open>plane_scaler_id\<close> here to keep them apart from the
  crtc's fields of the same name.
\<close>

record intel_plane =
  plane_pipe :: nat
  plane_id :: nat

record drm_rect =
  x1 :: int
  y1 :: int
  x2 :: int
  y2 :: int

record drm_framebuffer =
  is_yuv :: bool
  num_planes :: nat
  format :: u32
  modifier :: "64 word"

record intel_plane_state =
  plane_scaler_id :: int
  uapi_plane :: intel_plane
  hw_fb :: "drm_framebuffer option"
  uapi_src :: drm_rect
  uapi_dst :: drm_rect
  planar_linked_plane :: "intel_plane option"

text \<open>
  What the two functions take from outside this file: the display version, the index of
  the crtc's own bit in \<^verbatim>\<open>scaler_users\<close>, the register values of the scaler modes, and
  the helpers for plane kinds, pixel formats and rectangle scaling.
\<close>

record scaler_platform =
  DISPLAY_VER :: nat
  SKL_CRTC_INDEX :: nat
  PS_SCALER_MODE_NORMAL :: u32
  PS_SCALER_MODE_PLANAR :: u32
  PS_PLANE_Y_SEL :: "nat \<Rightarrow> u32"
  icl_is_hdr_plane :: "nat \<Rightarrow> bool"
  intel_format_info_is_yuv_semiplanar :: "drm_framebuffer \<Rightarrow> bool"
  drm_rect_calc_hscale :: "drm_rect \<Rightarrow> drm_rect \<Rightarrow> int \<Rightarrow> int \<Rightarrow> int"
  drm_rect_calc_vscale :: "drm_rect \<Rightarrow> drm_rect \<Rightarrow> int \<Rightarrow> int \<Rightarrow> int"

text \<open>
  The memory the functions write: the crtc's scaler state and the new state of each
  plane of the transaction, by plane index. \<^verbatim>\<open>int *scaler_id\<close> points either into the
  first or into one of the second.
\<close>

record scaler_setup =
  scaler_state :: intel_crtc_scaler_state
  plane_states :: "nat \<Rightarrow> intel_plane_state"

datatype scaler_user = CRTC_USER | PLANE_USER nat

fun get_scaler_id :: "scaler_setup \<Rightarrow> scaler_user \<Rightarrow> int" where
  "get_scaler_id st CRTC_USER = scaler_id (scaler_state st)"
| "get_scaler_id st (PLANE_USER i) = plane_scaler_id (plane_states st i)"

fun set_scaler_id :: "scaler_user \<Rightarrow> int \<Rightarrow> scaler_setup \<Rightarrow> scaler_setup" where
  "set_scaler_id CRTC_USER v st = st\<lparr>scaler_state := (scaler_state st)\<lparr>scaler_id := v\<rparr>\<rparr>"
| "set_scaler_id (PLANE_USER i) v st =
     st\<lparr>plane_states := (plane_states st)(i := (plane_states st i)\<lparr>plane_scaler_id := v\<rparr>)\<rparr>"

definition update_scaler ::
  "nat \<Rightarrow> (intel_scaler \<Rightarrow> intel_scaler) \<Rightarrow> scaler_setup \<Rightarrow> scaler_setup" where
  "update_scaler j f st =
     st\<lparr>scaler_state := (scaler_state st)
          \<lparr>scalers := (scalers (scaler_state st))(j := f (scalers (scaler_state st) j))\<rparr>\<rparr>"

text \<open>
  The search loop of \<^verbatim>\<open>intel_atomic_setup_scaler\<close>: the first scaler below
  \<^verbatim>\<open>num_scalers\<close> that is not in use is given to the user and marked in use.
\<close>

definition find_free_scaler :: "intel_crtc \<Rightarrow> scaler_user \<Rightarrow> scaler_setup \<Rightarrow> scaler_setup" where
  "find_free_scaler intel_crtc user st =
     (case find (\<lambda>j. \<not> in_use (scalers (scaler_state st) j)) [0..<nat (num_scalers intel_crtc)] of
        None \<Rightarrow> st
      | Some j \<Rightarrow> update_scaler j (\<lambda>s. s\<lparr>in_use := True\<rparr>) (set_scaler_id user (int j) st))"

text \<open>The mode chosen for the scaler, and the check of the scaling factors.\<close>

definition scaler_mode :: "scaler_platform \<Rightarrow> intel_plane_state option \<Rightarrow> u32" where
  "scaler_mode P plane_state =
     (case plane_state of
        None \<Rightarrow> PS_SCALER_MODE_NORMAL P
      | Some ps \<Rightarrow>
          (case hw_fb ps of
             None \<Rightarrow> PS_SCALER_MODE_NORMAL P
           | Some fb \<Rightarrow>
               if is_yuv fb \<and> 1 < num_planes fb
               then if icl_is_hdr_plane P (plane_id (uapi_plane ps))
                    then PS_SCALER_MODE_NORMAL P
                    else (case planar_linked_plane ps of
                            None \<Rightarrow> PS_SCALER_MODE_PLANAR P
                          | Some linked \<Rightarrow>
                              PS_SCALER_MODE_PLANAR P OR PS_PLANE_Y_SEL P (plane_id linked))
               else PS_SCALER_MODE_NORMAL P))"

definition scaling_within_limits ::
  "scaler_platform \<Rightarrow> intel_plane_state option \<Rightarrow> int \<Rightarrow> bool" where
  "scaling_within_limits P plane_state sid =
     (case plane_state of
        None \<Rightarrow> True
      | Some ps \<Rightarrow>
          (case hw_fb ps of
             None \<Rightarrow> True
           | Some fb \<Rightarrow>
               let (max_hscale, max_vscale) =
                     (if 14 \<le> DISPLAY_VER P
                      then (0x30000 - 1, if sid = 0 then 0x30000 - 1 else 0x10000)
                      else if \<not> intel_format_info_is_yuv_semiplanar P fb
                      then (0x30000 - 1, 0x30000 - 1)
                      else (0x20000 - 1, 0x20000 - 1));
                   hscale = drm_rect_calc_hscale P (uapi_src ps) (uapi_dst ps) 1 max_hscale;
                   vscale = drm_rect_calc_vscale P (uapi_src ps) (uapi_dst ps) 1 max_vscale
               in \<not> (hscale < 0 \<or> vscale < 0)))"

definition intel_atomic_setup_scaler ::
  "scaler_platform \<Rightarrow> intel_crtc \<Rightarrow> nat option \<Rightarrow> scaler_user \<Rightarrow> scaler_setup \<Rightarrow>
   (errno + unit) \<times> scaler_setup" where
  "intel_atomic_setup_scaler P intel_crtc plane_state user st =
     (let st = (if get_scaler_id st user < 0 then find_free_scaler intel_crtc user st else st);
          sid = get_scaler_id st user
      in if sid < 0 then (Inl EINVAL, st)
         else
           let ps = map_option (plane_states st) plane_state;
               mode = scaler_mode P ps
           in if \<not> scaling_within_limits P ps sid then (Inl EINVAL, st)
              else (Inr (), update_scaler (nat sid) (\<lambda>s. s\<lparr>mode := mode\<rparr>) st))"





subsection \<open>What a call keeps and what it gives\<close>



lemma get_set_scaler_id [simp]:
  "get_scaler_id (set_scaler_id u v st) u' = (if u' = u then v else get_scaler_id st u')"
  by (cases u; cases u') simp_all

lemma get_update_scaler [simp]:
  "get_scaler_id (update_scaler j f st) u = get_scaler_id st u"
  by (cases u) (simp_all add: update_scaler_def)

lemma scalers_set_scaler_id [simp]:
  "scalers (scaler_state (set_scaler_id u v st)) = scalers (scaler_state st)"
  by (cases u) simp_all

lemma users_set_scaler_id [simp]:
  "scaler_users (scaler_state (set_scaler_id u v st)) = scaler_users (scaler_state st)"
  by (cases u) simp_all

lemma scalers_update_scaler [simp]:
  "scalers (scaler_state (update_scaler j f st)) =
     (scalers (scaler_state st))(j := f (scalers (scaler_state st) j))"
  by (simp add: update_scaler_def)

lemma plane_states_update_scaler [simp]:
  "plane_states (update_scaler j f st) = plane_states st"
  by (simp add: update_scaler_def)

lemma users_update_scaler [simp]:
  "scaler_users (scaler_state (update_scaler j f st)) = scaler_users (scaler_state st)"
  by (simp add: update_scaler_def)






























subsection \<open>Sample transactions\<close>





















text \<open>
  The per-user setup fails exactly when no scaler is found for a user that has none,
  or when the scaling factors are outside the limits of the scaler it holds.
\<close>

lemma intel_atomic_setup_scaler_EINVAL:
  "fst (intel_atomic_setup_scaler P intel_crtc plane_state user st) = Inl EINVAL \<longleftrightarrow>
     (if get_scaler_id st user < 0
      then (case find (\<lambda>j. \<not> in_use (scalers (scaler_state st) j))
                   [0..<nat (num_scalers intel_crtc)] of
              None \<Rightarrow> True
            | Some j \<Rightarrow>
                \<not> scaling_within_limits P (map_option (plane_states st) plane_state) (int j))
      else \<not> scaling_within_limits P (map_option (plane_states st) plane_state)
               (get_scaler_id st user))"
proof -
  have same: "scaling_within_limits P (map_option (plane_states (set_scaler_id user v st)) q) sid
      = scaling_within_limits P (map_option (plane_states st) q) sid" for v q sid
    by (cases user; cases q)
       (simp_all add: scaling_within_limits_def Let_def split: option.split)
  show ?thesis
    by (simp add: intel_atomic_setup_scaler_def find_free_scaler_def Let_def same
        split: option.split)
qed



section \<open>The scheduler around the wait primitive\<close>

text \<open>
  Modelled from the spec: the per-processor state of the scheduler (the pending set's
  bitmask of work classes, the disable-nesting counter, whether the processor is in
  interrupt context, whether its background worker has been woken) is not in the
  sources. \<open>drain_attempts\<close>, \<open>passes\<close> and \<open>handled\<close> count and log what the
  model does, for the claims to speak about.
\<close>

record processor =
  pending :: "32 word"
  disable_count :: nat
  in_interrupt :: bool
  drain_attempts :: nat
  passes :: nat
  handled :: "nat list"
  worker_woken :: bool

text \<open>
  Modelled from the spec: \<^verbatim>\<open>raise(processor, class)\<close>, which is not in the sources,
  sets the pending bit of the class.
\<close>

definition raise_class :: "nat \<Rightarrow> processor \<Rightarrow> processor" where
  "raise_class c p = p\<lparr>pending := set_bit c (pending p)\<rparr>"

text \<open>
  Modelled from the spec: the handler of a work class, which is not in the sources. Of
  what a handler does the scheduler sees the classes it raises; \<open>raised_by c\<close> lists
  them for the handler of class \<open>c\<close>.
\<close>

definition handle_class :: "(nat \<Rightarrow> nat list) \<Rightarrow> nat \<Rightarrow> processor \<Rightarrow> processor" where
  "handle_class raised_by c p = fold raise_class (raised_by c) (p\<lparr>handled := handled p @ [c]\<rparr>)"

text \<open>
  Modelled from the spec: one pass of the dispatch loop, which is not in the sources.
  It captures the pending bitmask, clears it, and runs the handler of each captured
  class in the order of the enumeration.
\<close>

definition run_pass :: "(nat \<Rightarrow> nat list) \<Rightarrow> processor \<Rightarrow> processor" where
  "run_pass raised_by p =
     (let caught = pending p
      in fold (\<lambda>c q. if bit caught c then handle_class raised_by c q else q) [0..<32]
           (p\<lparr>pending := 0, passes := Suc (passes p)\<rparr>))"

text \<open>
  Modelled from the spec: the dispatch loop, which is not in the sources. After a pass,
  when bits were raised during it, the loop goes round again while the attempt counter
  is below the retry limit and the pass did not take longer than the latency budget;
  otherwise the bits are left set and the background worker is woken.
  \<open>over_budget k\<close> says whether pass number \<open>k\<close> overran the budget.
\<close>

function dispatch_loop ::
  "nat \<Rightarrow> (nat \<Rightarrow> bool) \<Rightarrow> (nat \<Rightarrow> nat list) \<Rightarrow> nat \<Rightarrow> processor \<Rightarrow> processor" where
  "dispatch_loop retry_limit over_budget raised_by attempt p =
     (if pending (run_pass raised_by p) = 0 then run_pass raised_by p
      else if Suc attempt < retry_limit \<and> \<not> over_budget (Suc attempt)
      then dispatch_loop retry_limit over_budget raised_by (Suc attempt) (run_pass raised_by p)
      else (run_pass raised_by p)\<lparr>worker_woken := True\<rparr>)"
  by pat_completeness auto
termination
  by (relation "measure (\<lambda>(retry_limit, over_budget, raised_by, attempt, p). retry_limit - attempt)")
     auto

declare dispatch_loop.simps [simp del]

text \<open>
  Modelled from the spec: \<^verbatim>\<open>disable()\<close> and \<^verbatim>\<open>enable()\<close>, which are not in the
  sources. \<^verbatim>\<open>disable()\<close> increments the nesting counter. \<^verbatim>\<open>enable()\<close> without a
  matching \<^verbatim>\<open>disable()\<close> is a fatal usage error; otherwise it decrements, and when the
  counter reaches zero outside interrupt context it drains the pending work with the
  dispatch loop before it returns.
\<close>

datatype usage_error = ENABLE_WITHOUT_DISABLE

definition disable :: "processor \<Rightarrow> processor" where
  "disable p = p\<lparr>disable_count := Suc (disable_count p)\<rparr>"

definition enable ::
  "nat \<Rightarrow> (nat \<Rightarrow> bool) \<Rightarrow> (nat \<Rightarrow> nat list) \<Rightarrow> processor \<Rightarrow> usage_error + processor" where
  "enable retry_limit over_budget raised_by p =
     (if disable_count p = 0 then Inl ENABLE_WITHOUT_DISABLE
      else
        let p = p\<lparr>disable_count := disable_count p - 1\<rparr>
        in if disable_count p = 0 \<and> \<not> in_interrupt p
           then Inr (dispatch_loop retry_limit over_budget raised_by 0
                       (p\<lparr>drain_attempts := Suc (drain_attempts p)\<rparr>))
           else Inr p)"


subsection \<open>Dynamic work units\<close>

text \<open>
  Modelled from the spec: the run state of a dynamic work unit and the queue of one
  processor, which are not in the sources. \<open>unit_runs\<close> counts the runs of each unit.
\<close>

datatype run_state = IDLE | SCHEDULED | RUNNING | SCHEDULED_RUN_PENDING

record work_units =
  run_state_of :: "nat \<Rightarrow> run_state"
  unit_queue :: "nat list"
  unit_runs :: "nat \<Rightarrow> nat"

text \<open>
  Modelled from the spec: \<^verbatim>\<open>schedule(unit)\<close>, which is not in the sources. An idle unit
  is queued, a running unit is marked for one more run, and a unit that is already
  scheduled is left as it is.
\<close>

definition schedule :: "nat \<Rightarrow> work_units \<Rightarrow> work_units" where
  "schedule u s =
     (case run_state_of s u of
        IDLE \<Rightarrow> s\<lparr>run_state_of := (run_state_of s)(u := SCHEDULED),
                   unit_queue := unit_queue s @ [u]\<rparr>
      | SCHEDULED \<Rightarrow> s
      | RUNNING \<Rightarrow> s\<lparr>run_state_of := (run_state_of s)(u := SCHEDULED_RUN_PENDING)\<rparr>
      | SCHEDULED_RUN_PENDING \<Rightarrow> s)"

text \<open>
  Modelled from the spec: the two ends of a unit's run in the dispatch loop, which is
  not in the sources. A dequeued unit is set to \<open>RUNNING\<close> and run; after the run
  it is queued again if it was scheduled meanwhile, and idle otherwise.
\<close>

definition begin_run :: "nat \<Rightarrow> work_units \<Rightarrow> work_units" where
  "begin_run u s =
     s\<lparr>run_state_of := (run_state_of s)(u := RUNNING),
       unit_runs := (unit_runs s)(u := Suc (unit_runs s u))\<rparr>"

definition end_run :: "nat \<Rightarrow> work_units \<Rightarrow> work_units" where
  "end_run u s =
     (if run_state_of s u = SCHEDULED_RUN_PENDING
      then s\<lparr>unit_queue := unit_queue s @ [u]\<rparr>
      else s\<lparr>run_state_of := (run_state_of s)(u := IDLE)\<rparr>)"

text \<open>
  Modelled from the spec: the drain of the unit queue to exhaustion, which is not in
  the sources. \<open>during k\<close> is what the handler and the producers on other processors
  do to the units while run number \<open>k\<close> is under way; with units that schedule
  themselves again in every run the drain does not end.
\<close>

partial_function (option) drain_units ::
  "(nat \<Rightarrow> work_units \<Rightarrow> work_units) \<Rightarrow> nat \<Rightarrow> work_units \<Rightarrow> work_units option" where
  "drain_units during k s =
     (case unit_queue s of
        [] \<Rightarrow> Some s
      | u # rest \<Rightarrow>
          drain_units during (Suc k)
            (end_run u (during k (begin_run u (s\<lparr>unit_queue := rest\<rparr>)))))"

subsection \<open>Sample processors and handlers\<close>

text \<open>
  A processor with nothing pending, a set of handlers that each raise their own class
  again, and the two extremes of the latency budget.
\<close>

definition idle_processor :: processor where
  "idle_processor =
     \<lparr>pending = 0, disable_count = 0, in_interrupt = False, drain_attempts = 0, passes = 0,
      handled = [], worker_woken = False\<rparr>"

definition reraise_own :: "nat \<Rightarrow> nat list" where
  "reraise_own c = [c]"

definition budget_spent :: "nat \<Rightarrow> bool" where
  "budget_spent k = True"

definition within_budget :: "nat \<Rightarrow> bool" where
  "within_budget k = False"



text \<open>Runs during which nobody schedules anything, and a unit in the middle of its first run.\<close>

definition no_schedule_calls :: "nat \<Rightarrow> work_units \<Rightarrow> work_units" where
  "no_schedule_calls k s = s"

definition one_unit_running :: work_units where
  "one_unit_running =
     \<lparr>run_state_of = (\<lambda>u. if u = 0 then RUNNING else IDLE), unit_queue = [],
      unit_runs = (\<lambda>u. if u = 0 then 1 else 0)\<rparr>"

subsection \<open>Passes of the dispatch loop\<close>

lemma raise_class_keeps:
  "bit (pending p) c \<Longrightarrow> bit (pending (raise_class c' p)) c"
  by (simp add: raise_class_def bit_set_bit_iff)

lemma raise_class_sets:
  "c < 32 \<Longrightarrow> bit (pending (raise_class c p)) c"
  by (simp add: raise_class_def bit_set_bit_iff)

lemma fold_raise_keeps:
  "bit (pending p) c \<Longrightarrow> bit (pending (fold raise_class cs p)) c"
  by (induction cs arbitrary: p) (simp_all add: raise_class_keeps)

lemma fold_raise_sets:
  "c < 32 \<Longrightarrow> c \<in> set cs \<Longrightarrow> bit (pending (fold raise_class cs p)) c"
  by (induction cs arbitrary: p) (auto simp: raise_class_sets fold_raise_keeps)

lemma fold_raise_passes [simp]:
  "passes (fold raise_class cs p) = passes p"
  by (induction cs arbitrary: p) (simp_all add: raise_class_def)

lemma handle_class_keeps:
  "bit (pending p) c \<Longrightarrow> bit (pending (handle_class raised_by c' p)) c"
  by (simp add: handle_class_def fold_raise_keeps)

lemma handle_class_sets:
  "c < 32 \<Longrightarrow> c \<in> set (raised_by c) \<Longrightarrow> bit (pending (handle_class raised_by c p)) c"
  by (simp add: handle_class_def fold_raise_sets)

lemma handle_class_passes [simp]:
  "passes (handle_class raised_by c p) = passes p"
  by (simp add: handle_class_def)

lemma pass_steps_keep:
  "bit (pending q) c \<Longrightarrow>
   bit (pending (fold (\<lambda>c q. if bit caught c then handle_class raised_by c q else q) cs q)) c"
  by (induction cs arbitrary: q) (simp_all add: handle_class_keeps)

lemma pass_steps_set:
  "c < 32 \<Longrightarrow> c \<in> set (raised_by c) \<Longrightarrow> bit caught c \<Longrightarrow> c \<in> set cs \<Longrightarrow>
   bit (pending (fold (\<lambda>c q. if bit caught c then handle_class raised_by c q else q) cs q)) c"
  by (induction cs arbitrary: q) (auto simp: handle_class_sets pass_steps_keep)

lemma pass_steps_passes [simp]:
  "passes (fold (\<lambda>c q. if bit caught c then handle_class raised_by c q else q) cs q) = passes q"
  by (induction cs arbitrary: q) simp_all

lemma run_pass_reraised:
  "c < 32 \<Longrightarrow> c \<in> set (raised_by c) \<Longrightarrow> bit (pending p) c \<Longrightarrow>
   bit (pending (run_pass raised_by p)) c"
  by (simp add: run_pass_def Let_def pass_steps_set)

lemma run_pass_passes [simp]: "passes (run_pass raised_by p) = Suc (passes p)"
  by (simp add: run_pass_def Let_def)


lemma bit_nonzero: "bit (w :: 32 word) c \<Longrightarrow> w \<noteq> 0"
  by auto

lemma dispatch_loop_reraising:
  "c < 32 \<Longrightarrow> c \<in> set (raised_by c) \<Longrightarrow> bit (pending p) c \<Longrightarrow>
    bit (pending (dispatch_loop retry_limit over_budget raised_by attempt p)) c \<and>
    worker_woken (dispatch_loop retry_limit over_budget raised_by attempt p) \<and>
    passes (dispatch_loop retry_limit over_budget raised_by attempt p) \<le>
      passes p + max 1 (retry_limit - attempt) \<and>
    ((\<forall>k. attempt < k \<and> k < retry_limit \<longrightarrow> \<not> over_budget k) \<longrightarrow>
      passes (dispatch_loop retry_limit over_budget raised_by attempt p) =
        passes p + max 1 (retry_limit - attempt))"
proof (induction retry_limit over_budget raised_by attempt p rule: dispatch_loop.induct)
  case (1 retry_limit over_budget raised_by attempt p)
  let ?p' = "run_pass raised_by p"
  let ?r = "dispatch_loop retry_limit over_budget raised_by (Suc attempt) ?p'"
  have again: "bit (pending ?p') c"
    using "1.prems" by (intro run_pass_reraised)
  then have nz: "pending ?p' \<noteq> 0" by (rule bit_nonzero)
  show ?case
  proof (cases "Suc attempt < retry_limit \<and> \<not> over_budget (Suc attempt)")
    case True
    then have cond: "(Suc attempt < retry_limit \<and> \<not> over_budget (Suc attempt)) = True"
      by simp
    have unfold: "dispatch_loop retry_limit over_budget raised_by attempt p = ?r"
      by (subst dispatch_loop.simps) (simp only: nz cond if_False if_True)
    from True have more: "max 1 (retry_limit - attempt) = Suc (max 1 (retry_limit - Suc attempt))"
      by arith
    note IH = "1.IH" [OF nz True "1.prems"(1,2) again]
    note ih = IH [THEN conjunct1] IH [THEN conjunct2, THEN conjunct1]
      IH [THEN conjunct2, THEN conjunct2, THEN conjunct1]
      IH [THEN conjunct2, THEN conjunct2, THEN conjunct2]
    have le: "passes ?r \<le> passes p + Suc (max 1 (retry_limit - Suc attempt))"
      using ih(3) by simp
    have eq: "passes ?r = passes p + Suc (max 1 (retry_limit - Suc attempt))"
      if "\<forall>k. attempt < k \<and> k < retry_limit \<longrightarrow> \<not> over_budget k"
    proof -
      from that have "\<forall>k. Suc attempt < k \<and> k < retry_limit \<longrightarrow> \<not> over_budget k" by simp
      with ih(4) show ?thesis by simp
    qed
    show ?thesis
      unfolding unfold more
    proof (intro conjI impI)
      show "bit (pending ?r) c" by (rule ih(1))
      show "worker_woken ?r" by (rule ih(2))
      show "passes ?r \<le> passes p + Suc (max 1 (retry_limit - Suc attempt))" by (rule le)
      assume "\<forall>k. attempt < k \<and> k < retry_limit \<longrightarrow> \<not> over_budget k"
      then show "passes ?r = passes p + Suc (max 1 (retry_limit - Suc attempt))" by (rule eq)
    qed
  next
    case False
    then have cond: "(Suc attempt < retry_limit \<and> \<not> over_budget (Suc attempt)) = False"
      by simp
    have unfold: "dispatch_loop retry_limit over_budget raised_by attempt p =
        ?p'\<lparr>worker_woken := True\<rparr>"
      by (subst dispatch_loop.simps) (simp only: nz cond if_False if_True)
    have small: "max 1 (retry_limit - attempt) = 1"
      if "\<forall>k. attempt < k \<and> k < retry_limit \<longrightarrow> \<not> over_budget k"
    proof (cases "Suc attempt < retry_limit")
      case True
      with that have "\<not> over_budget (Suc attempt)" by simp
      with True False show ?thesis by simp
    next
      case False
      then show ?thesis by arith
    qed
    have le: "passes (?p'\<lparr>worker_woken := True\<rparr>) \<le> passes p + max 1 (retry_limit - attempt)"
      by simp
    have eq: "passes (?p'\<lparr>worker_woken := True\<rparr>) = passes p + max 1 (retry_limit - attempt)"
      if "\<forall>k. attempt < k \<and> k < retry_limit \<longrightarrow> \<not> over_budget k"
      using small [OF that] by simp
    have b: "bit (pending (?p'\<lparr>worker_woken := True\<rparr>)) c" using again by simp
    have w: "worker_woken (?p'\<lparr>worker_woken := True\<rparr>)" by simp
    show ?thesis
      unfolding unfold
    proof (intro conjI impI)
      show "bit (pending (?p'\<lparr>worker_woken := True\<rparr>)) c" by (rule b)
      show "worker_woken (?p'\<lparr>worker_woken := True\<rparr>)" by (rule w)
      show "passes (?p'\<lparr>worker_woken := True\<rparr>) \<le> passes p + max 1 (retry_limit - attempt)"
        by (rule le)
      assume "\<forall>k. attempt < k \<and> k < retry_limit \<longrightarrow> \<not> over_budget k"
      then show "passes (?p'\<lparr>worker_woken := True\<rparr>) =
          passes p + max 1 (retry_limit - attempt)" by (rule eq)
    qed
  qed
qed

text \<open>
  C4, amended. When a handler raises its own class again on every pass, the dispatch
  loop ends; it makes no more passes than the retry limit (one pass when the limit is
  zero), and exactly that many when no pass overruns the latency budget. When it ends,
  the class is still pending and the background worker has been woken.
\<close>

theorem dispatch_loop_retry_limit:
  assumes "c < 32" and "c \<in> set (raised_by c)" and "bit (pending p) c"
  shows "bit (pending (dispatch_loop retry_limit over_budget raised_by 0 p)) c \<and>
    worker_woken (dispatch_loop retry_limit over_budget raised_by 0 p) \<and>
    passes (dispatch_loop retry_limit over_budget raised_by 0 p) \<le>
      passes p + max 1 retry_limit \<and>
    ((\<forall>k<retry_limit. \<not> over_budget k) \<longrightarrow>
      passes (dispatch_loop retry_limit over_budget raised_by 0 p) =
        passes p + max 1 retry_limit)"
  using dispatch_loop_reraising [where c = c and raised_by = raised_by and p = p
      and retry_limit = retry_limit and over_budget = over_budget and attempt = 0] assms
  by simp

theorem dispatch_loop_retry_limit_witness:
  "(0::nat) < 32 \<and> 0 \<in> set (reraise_own 0) \<and> bit (pending (raise_class 0 idle_processor)) 0 \<and>
   passes (dispatch_loop 10 within_budget reraise_own 0 (raise_class 0 idle_processor)) = 10 \<and>
   worker_woken (dispatch_loop 10 within_budget reraise_own 0 (raise_class 0 idle_processor)) \<and>
   bit (pending (dispatch_loop 10 within_budget reraise_own 0 (raise_class 0 idle_processor))) 0"
proof -
  have c: "(0::nat) < 32" by simp
  have own: "0 \<in> set (reraise_own 0)" by (simp add: reraise_own_def)
  have raised: "bit (pending (raise_class 0 idle_processor)) 0"
    by (simp add: raise_class_sets)
  have start: "passes (raise_class 0 idle_processor) = 0"
    by (simp add: raise_class_def idle_processor_def)
  from dispatch_loop_retry_limit [where c = 0 and raised_by = reraise_own
      and p = "raise_class 0 idle_processor" and retry_limit = 10
      and over_budget = within_budget] c own raised
  show ?thesis by (simp add: within_budget_def start)
qed

text \<open>
  The claim as written fails when a pass overruns the latency budget: with a retry limit
  of 10 the loop hands off after the first pass.
\<close>

theorem dispatch_loop_budget_counterexample:
  "(0::nat) < 32 \<and> 0 \<in> set (reraise_own 0) \<and> bit (pending (raise_class 0 idle_processor)) 0 \<and>
   passes (dispatch_loop 10 budget_spent reraise_own 0 (raise_class 0 idle_processor)) = 1"
proof -
  have own: "0 \<in> set (reraise_own 0)" by (simp add: reraise_own_def)
  have raised: "bit (pending (raise_class 0 idle_processor)) 0"
    by (simp add: raise_class_sets)
  have again: "bit (pending (run_pass reraise_own (raise_class 0 idle_processor))) 0"
    using run_pass_reraised [where c = 0 and raised_by = reraise_own
        and p = "raise_class 0 idle_processor"] own raised by simp
  then have nz: "pending (run_pass reraise_own (raise_class 0 idle_processor)) \<noteq> 0" by auto
  have "dispatch_loop 10 budget_spent reraise_own 0 (raise_class 0 idle_processor) =
      (run_pass reraise_own (raise_class 0 idle_processor))\<lparr>worker_woken := True\<rparr>"
    by (subst dispatch_loop.simps) (simp add: nz budget_spent_def)
  then show ?thesis
    using own raised by (simp add: raise_class_def idle_processor_def)
qed

subsection \<open>Nesting of disable and enable\<close>

text \<open>
  C5. After \<^verbatim>\<open>disable(); disable(); enable();\<close> the processor is as after one
  \<^verbatim>\<open>disable()\<close>: the counter is positive and nothing was drained. The second
  \<^verbatim>\<open>enable()\<close>, which brings the counter back to zero, drains with the dispatch loop
  before it returns, unless the processor is in interrupt context; then it only
  decrements.
\<close>

theorem disable_enable_nesting:
  "enable retry_limit over_budget raised_by (disable (disable p)) = Inr (disable p) \<and>
   0 < disable_count (disable p) \<and>
   (disable_count p = 0 \<longrightarrow>
      enable retry_limit over_budget raised_by (disable p) =
        Inr (if in_interrupt p then p
             else dispatch_loop retry_limit over_budget raised_by 0
                    (p\<lparr>drain_attempts := Suc (drain_attempts p)\<rparr>)))"
proof -
  have same: "p\<lparr>disable_count := 0\<rparr> = p" if "disable_count p = 0"
    using that by (cases p) simp
  show ?thesis
    by (auto simp: enable_def disable_def Let_def same)
qed


theorem disable_enable_nesting_witness:
  "disable_count idle_processor = 0 \<and>
   enable 10 within_budget reraise_own (disable (disable (raise_class 0 idle_processor))) =
     Inr (disable (raise_class 0 idle_processor)) \<and>
   enable 10 within_budget reraise_own (disable (raise_class 0 idle_processor)) =
     Inr (dispatch_loop 10 within_budget reraise_own 0
            ((raise_class 0 idle_processor)\<lparr>drain_attempts := 1\<rparr>))"
  using disable_enable_nesting [where p = "raise_class 0 idle_processor" and retry_limit = 10
      and over_budget = within_budget and raised_by = reraise_own]
  by (simp add: idle_processor_def raise_class_def)

subsection \<open>Coalescing of schedule calls\<close>

lemma drain_units_quiet:
  "unit_queue s = q \<Longrightarrow>
   \<exists>s'. drain_units no_schedule_calls k s = Some s' \<and> unit_queue s' = [] \<and>
        (\<forall>v. unit_runs s' v = unit_runs s v + count_list q v) \<and>
        (\<forall>v. run_state_of s' v = (if v \<in> set q then IDLE else run_state_of s v))"
proof (induction q arbitrary: s k)
  case Nil
  then show ?case by (subst drain_units.simps) simp
next
  case (Cons u rest)
  let ?s1 = "end_run u (no_schedule_calls k (begin_run u (s\<lparr>unit_queue := rest\<rparr>)))"
  have q1: "unit_queue ?s1 = rest"
    by (simp add: end_run_def no_schedule_calls_def begin_run_def)
  have r1: "unit_runs ?s1 v = unit_runs s v + (if v = u then 1 else 0)" for v
    by (simp add: end_run_def no_schedule_calls_def begin_run_def)
  have st1: "run_state_of ?s1 v = (if v = u then IDLE else run_state_of s v)" for v
    by (simp add: end_run_def no_schedule_calls_def begin_run_def)
  from Cons.IH [OF q1, of "Suc k"] obtain s' where
    s': "drain_units no_schedule_calls (Suc k) ?s1 = Some s'" "unit_queue s' = []"
      "\<forall>v. unit_runs s' v = unit_runs ?s1 v + count_list rest v"
      "\<forall>v. run_state_of s' v = (if v \<in> set rest then IDLE else run_state_of ?s1 v)"
    by (elim exE conjE)
  have "drain_units no_schedule_calls k s = Some s'"
    using Cons.prems s'(1) by (subst drain_units.simps) simp
  moreover have "\<forall>v. unit_runs s' v = unit_runs s v + count_list (u # rest) v"
    using s'(3) by (simp add: r1)
  moreover have "\<forall>v. run_state_of s' v = (if v \<in> set (u # rest) then IDLE else run_state_of s v)"
    using s'(4) by (simp add: st1)
  ultimately show ?case using s'(2) by (intro exI [of _ s'] conjI)
qed

lemma schedule_while_running:
  "run_state_of s u = RUNNING \<Longrightarrow>
   schedule u s = s\<lparr>run_state_of := (run_state_of s)(u := SCHEDULED_RUN_PENDING)\<rparr>"
  by (simp add: schedule_def)

lemma schedule_idem:
  "run_state_of s u = SCHEDULED_RUN_PENDING \<Longrightarrow> schedule u s = s"
  by (simp add: schedule_def)

lemma schedule_repeated:
  "run_state_of s u = RUNNING \<Longrightarrow> 0 < N \<Longrightarrow> (schedule u ^^ N) s = schedule u s"
proof (induction N)
  case 0
  then show ?case by simp
next
  case (Suc N)
  show ?case
  proof (cases "N = 0")
    case True
    then show ?thesis by simp
  next
    case False
    with Suc have "(schedule u ^^ N) s = schedule u s" by simp
    moreover have "run_state_of (schedule u s) u = SCHEDULED_RUN_PENDING"
      using Suc.prems(1) by (simp add: schedule_while_running)
    ultimately show ?thesis by (simp add: schedule_idem)
  qed
qed

text \<open>
  C3. While a unit is running, any number \<open>N \<ge> 1\<close> of \<^verbatim>\<open>schedule\<close> calls has the
  effect of one: the unit is left marked for one more run, and once the current run
  is over the drain runs it exactly once more and leaves it idle.
\<close>

theorem schedule_while_running_coalesces:
  assumes "run_state_of s u = RUNNING" and "u \<notin> set (unit_queue s)" and "0 < N"
  shows "(schedule u ^^ N) s = schedule u s \<and>
    run_state_of ((schedule u ^^ N) s) u = SCHEDULED_RUN_PENDING \<and>
    (\<exists>s'. drain_units no_schedule_calls k (end_run u ((schedule u ^^ N) s)) = Some s' \<and>
          unit_runs s' u = Suc (unit_runs s u) \<and> run_state_of s' u = IDLE)"
proof -
  have rep: "(schedule u ^^ N) s = schedule u s"
    using assms(1,3) by (rule schedule_repeated)
  have pend: "run_state_of (schedule u s) u = SCHEDULED_RUN_PENDING"
    using assms(1) by (simp add: schedule_while_running)
  let ?s1 = "end_run u (schedule u s)"
  have q: "unit_queue ?s1 = unit_queue s @ [u]"
    using assms(1) by (simp add: end_run_def schedule_while_running)
  have r: "unit_runs ?s1 u = unit_runs s u"
    using assms(1) by (simp add: end_run_def schedule_while_running)
  from drain_units_quiet [OF q, of k] obtain s' where
    s': "drain_units no_schedule_calls k ?s1 = Some s'"
      "\<forall>v. unit_runs s' v = unit_runs ?s1 v + count_list (unit_queue s @ [u]) v"
      "\<forall>v. run_state_of s' v =
          (if v \<in> set (unit_queue s @ [u]) then IDLE else run_state_of ?s1 v)"
    by (elim exE conjE)
  have "count_list (unit_queue s) u = 0"
    using assms(2) by (simp add: count_list_0_iff)
  with s'(2) r have "unit_runs s' u = Suc (unit_runs s u)" by simp
  moreover from s'(3) have "run_state_of s' u = IDLE" by simp
  ultimately show ?thesis
    unfolding rep using pend s'(1) by (intro conjI exI [of _ s']) simp_all
qed

theorem schedule_while_running_coalesces_witness:
  "run_state_of one_unit_running 0 = RUNNING \<and> 0 \<notin> set (unit_queue one_unit_running) \<and>
   (schedule 0 ^^ 3) one_unit_running = schedule 0 one_unit_running \<and>
   run_state_of ((schedule 0 ^^ 3) one_unit_running) 0 = SCHEDULED_RUN_PENDING \<and>
   (\<exists>s'. drain_units no_schedule_calls 0 (end_run 0 ((schedule 0 ^^ 3) one_unit_running)) = Some s' \<and>
         unit_runs s' 0 = 2 \<and> run_state_of s' 0 = IDLE)"
proof -
  have a: "run_state_of one_unit_running 0 = RUNNING" by (simp add: one_unit_running_def)
  have b: "0 \<notin> set (unit_queue one_unit_running)" by (simp add: one_unit_running_def)
  have c: "(0::nat) < 3" by simp
  have d: "Suc (unit_runs one_unit_running 0) = 2" by (simp add: one_unit_running_def)
  note t = schedule_while_running_coalesces [OF a b c, of 0, unfolded d]
  show ?thesis
    by (rule conjI [OF a conjI [OF b t]])
qed

subsection \<open>The wait primitive on a processor of the scheduler\<close>

text \<open>
  What the dispatch loop leaves alone: the nesting counter, the interrupt context and the
  count of drains are the same after a pass and after the whole loop.
\<close>

lemma raise_class_gate [simp]:
  "disable_count (raise_class c p) = disable_count p"
  "in_interrupt (raise_class c p) = in_interrupt p"
  "drain_attempts (raise_class c p) = drain_attempts p"
  by (simp_all add: raise_class_def)

lemma fold_raise_gate [simp]:
  "disable_count (fold raise_class cs p) = disable_count p"
  "in_interrupt (fold raise_class cs p) = in_interrupt p"
  "drain_attempts (fold raise_class cs p) = drain_attempts p"
  by (induction cs arbitrary: p) simp_all

lemma handle_class_gate [simp]:
  "disable_count (handle_class raised_by c p) = disable_count p"
  "in_interrupt (handle_class raised_by c p) = in_interrupt p"
  "drain_attempts (handle_class raised_by c p) = drain_attempts p"
  by (simp_all add: handle_class_def)

lemma pass_steps_gate [simp]:
  "disable_count (fold (\<lambda>c q. if bit caught c then handle_class raised_by c q else q) cs q) =
     disable_count q"
  "in_interrupt (fold (\<lambda>c q. if bit caught c then handle_class raised_by c q else q) cs q) =
     in_interrupt q"
  "drain_attempts (fold (\<lambda>c q. if bit caught c then handle_class raised_by c q else q) cs q) =
     drain_attempts q"
  by (induction cs arbitrary: q) simp_all

lemma run_pass_gate [simp]:
  "disable_count (run_pass raised_by p) = disable_count p"
  "in_interrupt (run_pass raised_by p) = in_interrupt p"
  "drain_attempts (run_pass raised_by p) = drain_attempts p"
  by (simp_all add: run_pass_def Let_def)
















end
